theory Spec2Isabelle
  imports
    Main
    "HOL-Library.Multiset"
    "HOL-Library.Product_Lexorder"
    "HOL-Library.AList"
begin

section \<open>medspaCy's combined matcher: rule registry, overlap pruning, span construction\<close>

text \<open>
  A shallow embedding of \<^verbatim>\<open>medspacy/common/medspacy_matcher.py\<close> and of its older copy
  \<^verbatim>\<open>medspacy/target_matcher/medspacy_matcher.py\<close>.  Python exceptions are values of the
  type \<open>error\<close>; a function that can raise returns \<open>error + 'a\<close> with \<open>Inl\<close> for the
  exception.  Methods that mutate \<^verbatim>\<open>self\<close> take the object and return it updated.
\<close>

subsection \<open>Exceptions\<close>

text \<open>
  \<open>NotImplementedError\<close> is raised by the pruner for an unknown strategy.  \<open>ValueError\<close>
  carries the message of the two \<^verbatim>\<open>raise ValueError(...)\<close> of \<^verbatim>\<open>add\<close>.  \<open>IndexError\<close> is
  what \<^verbatim>\<open>list.pop(0)\<close> raises on an empty list, \<open>KeyError\<close> what a lookup of a missing
  key raises, \<open>AttributeError\<close> what reading \<^verbatim>\<open>rule.category\<close> of an object that is not a
  rule raises, and \<open>TypeError\<close> what spaCy raises for an argument that is \<^verbatim>\<open>None\<close> where it
  accepts none.
\<close>

datatype error =
  NotImplementedError | ValueError string | IndexError | KeyError int | AttributeError | TypeError

subsection \<open>Matches and the overlap test\<close>

text \<open>A match is the Python tuple \<^verbatim>\<open>(match_id, start, end)\<close> of three ints.\<close>

type_synonym match = "int \<times> int \<times> int"

text \<open>\<^verbatim>\<open>key=lambda x: (x[1], x[2])\<close>; Python compares the key tuples lexicographically.\<close>

definition start_end :: "match \<Rightarrow> int \<times> int" where
  "start_end x = (fst (snd x), snd (snd x))"

text \<open>\<^verbatim>\<open>sorted(matches, key=...)\<close>: a stable sort into a new list.\<close>

definition sorted_matches :: "match list \<Rightarrow> match list" where
  "sorted_matches matches = sort_key start_end matches"

text \<open>\<^verbatim>\<open>_match_overlaps(a, b)\<close>.\<close>

fun match_overlaps :: "match \<Rightarrow> match \<Rightarrow> bool" where
  "match_overlaps (a_id, a_start, a_end) (b_id, b_start, b_end) =
     (if a_start \<ge> b_start \<and> a_start < b_end then True
      else if a_end > b_start \<and> a_end \<le> b_end then True
      else False)"

definition overlaps :: "match \<Rightarrow> match \<Rightarrow> bool" where
  "overlaps a b = (if match_overlaps a b \<or> match_overlaps b a then True else False)"

text \<open>\<^verbatim>\<open>key=lambda x: (x[2] - x[1])\<close>, the length of the span.\<close>

definition span_length :: "match \<Rightarrow> int" where
  "span_length x = snd (snd x) - fst (snd x)"

text \<open>
  Python's \<^verbatim>\<open>max(a, b, key=f)\<close>: the first argument whose key is maximal, so \<open>b\<close> only
  when its key is strictly larger.
\<close>

definition max_key :: "('a \<Rightarrow> int) \<Rightarrow> 'a \<Rightarrow> 'a \<Rightarrow> 'a" where
  "max_key f a b = (if f b > f a then b else a)"

subsection \<open>The overlap pruner\<close>

text \<open>
  The \<^verbatim>\<open>while True\<close> loop of \<^verbatim>\<open>prune_overlapping_matches\<close>.  Its state is
  \<^verbatim>\<open>curr_match\<close>, the list \<^verbatim>\<open>unpruned\<close> (consumed from the front by \<^verbatim>\<open>pop(0)\<close>) and the
  list \<^verbatim>\<open>pruned\<close> (extended at the back by \<^verbatim>\<open>append\<close>); its value is \<^verbatim>\<open>pruned\<close> at the
  \<^verbatim>\<open>break\<close>.
\<close>

fun prune_loop :: "match \<Rightarrow> match list \<Rightarrow> match list \<Rightarrow> match list" where
  "prune_loop curr_match [] pruned = pruned @ [curr_match]"
| "prune_loop curr_match (next_match # unpruned) pruned =
     (if overlaps curr_match next_match then
        (let longer_span = max_key span_length curr_match next_match;
             pruned' = pruned @ [longer_span]
         in case unpruned of
              [] \<Rightarrow> pruned'
            | curr_match' # unpruned' \<Rightarrow> prune_loop curr_match' unpruned' pruned')
      else prune_loop next_match unpruned (pruned @ [curr_match]))"

text \<open>
  \<^verbatim>\<open>prune_overlapping_matches(matches, strategy="longest")\<close>.  The recursive call passes
  no strategy, hence the default.  The first \<^verbatim>\<open>pop(0)\<close> would raise on an empty list; the
  branch is kept although the emptiness test before it makes it unreachable.
\<close>

function prune_overlapping_matches :: "match list \<Rightarrow> string \<Rightarrow> error + match list" where
  "prune_overlapping_matches matches strategy =
     (if strategy \<noteq> ''longest'' then Inl NotImplementedError
      else
        let unpruned = sorted_matches matches;
            num_matches = length matches
        in if num_matches = 0 then Inr matches
           else (case unpruned of
                   [] \<Rightarrow> Inl IndexError
                 | curr_match # unpruned' \<Rightarrow>
                     let pruned = prune_loop curr_match unpruned' []
                     in if length pruned = num_matches then Inr pruned
                        else prune_overlapping_matches pruned ''longest''))"
  by pat_completeness auto

text \<open>
  The same function with a budget of recursive calls: \<open>None\<close> when the budget is used up
  before a pass returns.  It is defined by recursion on the budget alone, so it says
  nothing in advance about whether the pruner returns.
\<close>

fun prune_bounded :: "nat \<Rightarrow> match list \<Rightarrow> string \<Rightarrow> (error + match list) option" where
  "prune_bounded calls matches strategy =
     (if strategy \<noteq> ''longest'' then Some (Inl NotImplementedError)
      else
        let unpruned = sorted_matches matches;
            num_matches = length matches
        in if num_matches = 0 then Some (Inr matches)
           else (case unpruned of
                   [] \<Rightarrow> Some (Inl IndexError)
                 | curr_match # unpruned' \<Rightarrow>
                     let pruned = prune_loop curr_match unpruned' []
                     in if length pruned = num_matches then Some (Inr pruned)
                        else (case calls of
                                0 \<Rightarrow> None
                              | Suc calls' \<Rightarrow> prune_bounded calls' pruned ''longest'')))"

subsection \<open>The older copy in the target matcher\<close>

text \<open>
  \<^verbatim>\<open>target_matcher/medspacy_matcher.py\<close> repeats the pruner; its overlap helper is named
  \<^verbatim>\<open>_span_overlaps\<close>.
\<close>

fun span_overlaps :: "match \<Rightarrow> match \<Rightarrow> bool" where
  "span_overlaps (a_id, a_start, a_end) (b_id, b_start, b_end) =
     (if a_start \<ge> b_start \<and> a_start < b_end then True
      else if a_end > b_start \<and> a_end \<le> b_end then True
      else False)"

definition tm_overlaps :: "match \<Rightarrow> match \<Rightarrow> bool" where
  "tm_overlaps a b = (if span_overlaps a b \<or> span_overlaps b a then True else False)"

fun tm_prune_loop :: "match \<Rightarrow> match list \<Rightarrow> match list \<Rightarrow> match list" where
  "tm_prune_loop curr_match [] pruned = pruned @ [curr_match]"
| "tm_prune_loop curr_match (next_match # unpruned) pruned =
     (if tm_overlaps curr_match next_match then
        (let longer_span = max_key span_length curr_match next_match;
             pruned' = pruned @ [longer_span]
         in case unpruned of
              [] \<Rightarrow> pruned'
            | curr_match' # unpruned' \<Rightarrow> tm_prune_loop curr_match' unpruned' pruned')
      else tm_prune_loop next_match unpruned (pruned @ [curr_match]))"

function tm_prune_overlapping_matches :: "match list \<Rightarrow> string \<Rightarrow> error + match list" where
  "tm_prune_overlapping_matches matches strategy =
     (if strategy \<noteq> ''longest'' then Inl NotImplementedError
      else
        let unpruned = sorted_matches matches;
            num_matches = length matches
        in if num_matches = 0 then Inr matches
           else (case unpruned of
                   [] \<Rightarrow> Inl IndexError
                 | curr_match # unpruned' \<Rightarrow>
                     let pruned = tm_prune_loop curr_match unpruned' []
                     in if length pruned = num_matches then Inr pruned
                        else tm_prune_overlapping_matches pruned ''longest''))"
  by pat_completeness auto

subsection \<open>Rules and the registry\<close>

text \<open>
  The value of a rule's \<^verbatim>\<open>pattern\<close> attribute as \<^verbatim>\<open>add\<close> tells it apart: \<^verbatim>\<open>None\<close>, a
  \<^verbatim>\<open>str\<close>, a \<^verbatim>\<open>list\<close> (of token-attribute dictionaries), or an object of any other type,
  of which only the type's name is kept (it appears in the error message).
\<close>

type_synonym token_pattern = "(string \<times> string) list"

datatype pattern_value =
    NoPattern
  | StrPattern string
  | ListPattern "token_pattern list"
  | OtherPattern string

text \<open>
  The attributes of a rule that \<^verbatim>\<open>add\<close> reads or writes.  \<open>on_match\<close> is the name of the
  callback, which the registry only hands on; \<open>rule_id\<close> is the attribute \<^verbatim>\<open>_rule_id\<close>.
\<close>

record rule =
  category :: string
  literal :: string
  pattern :: pattern_value
  on_match :: "string option"
  rule_id :: "string option"

text \<open>An element of the iterable given to \<^verbatim>\<open>add\<close>: an instance of \<^verbatim>\<open>BaseRule\<close> or not.\<close>

datatype py_object = BaseRule rule | NotBaseRule

text \<open>
  The state of a \<^verbatim>\<open>MedspacyMatcher\<close>.  \<open>rule_map\<close> is the dictionary \<^verbatim>\<open>_rule_map\<close> in
  insertion order.  The three engines (spaCy's \<^verbatim>\<open>Matcher\<close> and \<^verbatim>\<open>PhraseMatcher\<close>, and the
  \<^verbatim>\<open>RegexMatcher\<close>) are outside the source; each is represented by the list of the
  \<^verbatim>\<open>add(key, patterns, on_match)\<close> calls it has received.  For the phrase matcher the
  pattern is the text handed to \<^verbatim>\<open>self.nlp\<close>, whose tokenisation is external.  The map
  holds each rule as the registering call has left it; were the same object registered
  twice, Python's map would show the later id under both keys.
\<close>

record medspacy_matcher =
  rule_ids :: "string set"
  labels :: "string set"
  rule_map :: "(string \<times> rule) list"
  prune :: bool
  matcher :: "(string \<times> token_pattern list list \<times> string option) list"
  phrase_matcher :: "(string \<times> string list \<times> string option) list"
  regex_matcher :: "(string \<times> string list \<times> string option) list"
  rule_count :: nat
  phrase_matcher_attr :: string

text \<open>\<^verbatim>\<open>__init__(nlp, phrase_matcher_attr="LOWER", prune=True)\<close>.\<close>

definition init :: "string \<Rightarrow> bool \<Rightarrow> medspacy_matcher" where
  "init attr prune_flag =
     \<lparr>rule_ids = {}, labels = {}, rule_map = [], prune = prune_flag,
      matcher = [], phrase_matcher = [], regex_matcher = [],
      rule_count = 0, phrase_matcher_attr = attr\<rparr>"

text \<open>The property \<^verbatim>\<open>rules\<close>: \<^verbatim>\<open>list(self._rule_map.values())\<close>.\<close>

definition rules :: "medspacy_matcher \<Rightarrow> rule list" where
  "rules self = map snd (rule_map self)"

text \<open>The decimal rendering of a non-negative int in an f-string.\<close>

definition digit :: "nat \<Rightarrow> char" where
  "digit d = ''0123456789'' ! d"

function str_nat :: "nat \<Rightarrow> string" where
  "str_nat n = (if n < 10 then [digit n] else str_nat (n div 10) @ [digit (n mod 10)])"
  by pat_completeness auto
termination
  by (relation "measure (\<lambda>n. n)") auto

declare str_nat.simps [simp del]

text \<open>
  \<^verbatim>\<open>str.lower()\<close> on ASCII text: the letters \<open>A\<close> to \<open>Z\<close> are lowered.  Python also lowers
  letters outside ASCII, which are left as they are here.
\<close>

definition lower_char :: "char \<Rightarrow> char" where
  "lower_char c =
     (case map_of (zip ''ABCDEFGHIJKLMNOPQRSTUVWXYZ'' ''abcdefghijklmnopqrstuvwxyz'') c of
        Some l \<Rightarrow> l
      | None \<Rightarrow> c)"

definition lower :: "string \<Rightarrow> string" where
  "lower s = map lower_char s"

text \<open>
  \<^verbatim>\<open>type(rule.pattern)\<close> as the f-string of the error message renders it: the name of the
  type between \<^verbatim>\<open><class '\<close> and \<^verbatim>\<open>'>\<close>.
\<close>

fun type_name :: "pattern_value \<Rightarrow> string" where
  "type_name NoPattern = ''NoneType''"
| "type_name (StrPattern p) = ''str''"
| "type_name (ListPattern p) = ''list''"
| "type_name (OtherPattern ty) = ty"

definition type_repr :: "pattern_value \<Rightarrow> string" where
  "type_repr p = ''<class '' @ [CHR 0x27] @ type_name p @ [CHR 0x27] @ ''>''"

text \<open>
  The body of the \<^verbatim>\<open>for rule in rules\<close> loop of \<^verbatim>\<open>MedspacyMatcher.add\<close>, in the order of
  its statements.  The result is the exception raised, if any, the matcher as the
  statements executed until then have left it, and the rule object as mutated
  (\<^verbatim>\<open>rule._rule_id = rule_id\<close>).  The engines are taken to accept every pattern of their
  kind, as the engine contract of the specification has it; an exception raised inside
  an engine is not modelled.
\<close>

definition add_rule ::
  "medspacy_matcher \<Rightarrow> py_object \<Rightarrow> error option \<times> medspacy_matcher \<times> py_object" where
  "add_rule self obj =
     (case obj of
        NotBaseRule \<Rightarrow>
          (Some (ValueError ''Rules must inherit from medspacy.common.BaseRule.''), self, obj)
      | BaseRule r \<Rightarrow>
          let self1 = self\<lparr>labels := insert (category r) (labels self)\<rparr>;
              rid = category r @ ''_'' @ str_nat (rule_count self1);
              r' = r\<lparr>rule_id := Some rid\<rparr>;
              self2 = self1\<lparr>rule_map := AList.update rid r' (rule_map self1)\<rparr>
          in if pattern r' \<noteq> NoPattern then
               (case pattern r' of
                  StrPattern p \<Rightarrow>
                    (None,
                     self2\<lparr>regex_matcher := regex_matcher self2 @ [(rid, [p], on_match r')],
                           rule_count := rule_count self2 + 1\<rparr>,
                     BaseRule r')
                | ListPattern p \<Rightarrow>
                    (None,
                     self2\<lparr>matcher := matcher self2 @ [(rid, [p], on_match r')],
                           rule_count := rule_count self2 + 1\<rparr>,
                     BaseRule r')
                | _ \<Rightarrow>
                    (Some (ValueError
                       (''The pattern argument must be either a string or a list, not ''
                        @ type_repr (pattern r'))),
                     self2, BaseRule r'))
             else
               let text = (if lower (phrase_matcher_attr self2) = ''lower''
                           then lower (literal r') else literal r')
               in (None,
                   self2\<lparr>phrase_matcher := phrase_matcher self2 @ [(rid, [text], on_match r')],
                         rule_count := rule_count self2 + 1\<rparr>,
                   BaseRule r'))"

text \<open>
  \<^verbatim>\<open>MedspacyMatcher.add(rules)\<close>: the loop stops at the first exception; the rules after
  the rejected one are not touched.  The third component lists, for each position of the
  iterable, the object as the loop body left it when it handled that position.
\<close>

fun add ::
  "medspacy_matcher \<Rightarrow> py_object list \<Rightarrow> error option \<times> medspacy_matcher \<times> py_object list" where
  "add self [] = (None, self, [])"
| "add self (obj # objs) =
     (case add_rule self obj of
        (Some e, self', obj') \<Rightarrow> (Some e, self', obj' # objs)
      | (None, self', obj') \<Rightarrow>
          (case add self' objs of (e, self'', objs') \<Rightarrow> (e, self'', obj' # objs')))"

text \<open>
  \<^verbatim>\<open>__call__(doc)\<close>, given what the three engines return for the document: the engines'
  match lists are concatenated (\<^verbatim>\<open>Matcher\<close>, \<^verbatim>\<open>PhraseMatcher\<close>, \<^verbatim>\<open>RegexMatcher\<close>) and pruned
  when \<^verbatim>\<open>self._prune\<close> is set.
\<close>

definition call ::
  "medspacy_matcher \<Rightarrow> match list \<Rightarrow> match list \<Rightarrow> match list \<Rightarrow> error + match list" where
  "call self matcher_out phrase_out regex_out =
     (let matches = matcher_out @ phrase_out @ regex_out
      in if prune self then prune_overlapping_matches matches ''longest'' else Inr matches)"

subsection \<open>The older registry in the target matcher\<close>

text \<open>
  The \<^verbatim>\<open>MedspacyMatcher\<close> of \<^verbatim>\<open>target_matcher/medspacy_matcher.py\<close>: it keeps the list
  \<^verbatim>\<open>_rules\<close> and the dictionary \<^verbatim>\<open>_rule_item_mapping\<close>, and has no prune flag and no
  phrase-matcher attribute.
\<close>

record tm_medspacy_matcher =
  tm_rule_ids :: "string set"
  tm_rules :: "py_object list"
  tm_labels :: "string set"
  tm_rule_item_mapping :: "(string \<times> rule) list"
  tm_matcher :: "(string \<times> token_pattern list list \<times> string option) list"
  tm_phrase_matcher :: "(string \<times> string list \<times> string option) list"
  tm_regex_matcher :: "(string \<times> string list \<times> string option) list"

definition tm_init :: tm_medspacy_matcher where
  "tm_init =
     \<lparr>tm_rule_ids = {}, tm_rules = [], tm_labels = {}, tm_rule_item_mapping = [],
      tm_matcher = [], tm_phrase_matcher = [], tm_regex_matcher = []\<rparr>"

text \<open>
  The \<^verbatim>\<open>for rule in rules\<close> loop of its \<^verbatim>\<open>add\<close>, with the local counter \<^verbatim>\<open>i\<close>.  There is no
  \<^verbatim>\<open>isinstance\<close> test; the literal is always lower-cased.
\<close>

fun tm_add_loop ::
  "tm_medspacy_matcher \<Rightarrow> nat \<Rightarrow> py_object list \<Rightarrow>
     error option \<times> tm_medspacy_matcher \<times> py_object list" where
  "tm_add_loop self i [] = (None, self, [])"
| "tm_add_loop self i (obj # objs) =
     (case obj of
        NotBaseRule \<Rightarrow> (Some AttributeError, self, obj # objs)
      | BaseRule r \<Rightarrow>
          let self1 = self\<lparr>tm_labels := insert (category r) (tm_labels self)\<rparr>;
              rid = category r @ ''_'' @ str_nat i;
              r' = r\<lparr>rule_id := Some rid\<rparr>;
              self2 = self1\<lparr>tm_rule_item_mapping :=
                              AList.update rid r' (tm_rule_item_mapping self1)\<rparr>
          in if pattern r' \<noteq> NoPattern then
               (case pattern r' of
                  StrPattern p \<Rightarrow>
                    (case tm_add_loop
                            (self2\<lparr>tm_regex_matcher :=
                                      tm_regex_matcher self2 @ [(rid, [p], on_match r')]\<rparr>)
                            (i + 1) objs of
                       (e, self', objs') \<Rightarrow> (e, self', BaseRule r' # objs'))
                | ListPattern p \<Rightarrow>
                    (case tm_add_loop
                            (self2\<lparr>tm_matcher := tm_matcher self2 @ [(rid, [p], on_match r')]\<rparr>)
                            (i + 1) objs of
                       (e, self', objs') \<Rightarrow> (e, self', BaseRule r' # objs'))
                | _ \<Rightarrow>
                    (Some (ValueError
                       (''The pattern argument must be either a string or a list, not ''
                        @ type_repr (pattern r'))),
                     self2, BaseRule r' # objs))
             else
               (case tm_add_loop
                       (self2\<lparr>tm_phrase_matcher :=
                                 tm_phrase_matcher self2 @ [(rid, [lower (literal r')], on_match r')]\<rparr>)
                       (i + 1) objs of
                  (e, self', objs') \<Rightarrow> (e, self', BaseRule r' # objs')))"

text \<open>
  Its \<^verbatim>\<open>add(rules)\<close>: \<^verbatim>\<open>i = len(self._rules)\<close>, then \<^verbatim>\<open>self._rules += rules\<close>, then the loop.
  The list holds the very objects the loop mutates, so after the call it holds them as
  the loop has left them, also when the loop has raised.
\<close>

definition tm_add ::
  "tm_medspacy_matcher \<Rightarrow> py_object list \<Rightarrow>
     error option \<times> tm_medspacy_matcher \<times> py_object list" where
  "tm_add self objs =
     (let i = length (tm_rules self)
      in case tm_add_loop self i objs of
           (e, self', objs') \<Rightarrow> (e, self'\<lparr>tm_rules := tm_rules self @ objs'\<rparr>, objs'))"

subsection \<open>Spans\<close>

text \<open>
  Of a spaCy \<^verbatim>\<open>Doc\<close> the code uses its length, the number of tokens, and
  \<^verbatim>\<open>doc.vocab.strings\<close>, the string store, which maps the integer id of a string it holds
  to the string; reading an id it does not hold raises \<^verbatim>\<open>KeyError\<close>.
\<close>

record doc =
  tokens :: "string list"
  vocab_strings :: "(int \<times> string) list"

text \<open>A span as constructed: its document, its token range and the string of its label.\<close>

record span =
  span_doc :: doc
  span_start :: int
  span_end :: int
  span_label :: string

text \<open>
  spaCy's constructor \<^verbatim>\<open>Span(doc, start=, end=, label=)\<close>, which is outside the source, by
  what it does with these arguments: it raises \<^verbatim>\<open>IndexError\<close> unless
  \<open>0 \<le> start \<le> end \<le> len(doc)\<close>; a \<^verbatim>\<open>str\<close> label is interned in the document's string
  store, which changes nothing for a string the store already holds; the label \<^verbatim>\<open>None\<close>
  fails the membership test on the string store with \<^verbatim>\<open>TypeError\<close>.
\<close>

definition Span :: "doc \<Rightarrow> int \<Rightarrow> int \<Rightarrow> string option \<Rightarrow> error + span" where
  "Span d start end label =
     (if \<not> (0 \<le> start \<and> start \<le> end \<and> end \<le> int (length (tokens d))) then Inl IndexError
      else case label of
             None \<Rightarrow> Inl TypeError
           | Some l \<Rightarrow>
               Inr \<lparr>span_doc = d, span_start = start, span_end = end, span_label = l\<rparr>)"

text \<open>
  The \<^verbatim>\<open>for (rule_id, start, end) in matches\<close> loop, with the list \<^verbatim>\<open>spans\<close> built so far.
  The label handed to \<^verbatim>\<open>Span\<close> is \<^verbatim>\<open>doc.vocab.strings[rule_id]\<close> or \<^verbatim>\<open>None\<close>.
\<close>

fun spans_loop :: "doc \<Rightarrow> match list \<Rightarrow> bool \<Rightarrow> span list \<Rightarrow> error + span list" where
  "spans_loop d [] set_label spans = Inr spans"
| "spans_loop d ((rid, start, end) # matches) set_label spans =
     (if set_label then
        (case map_of (vocab_strings d) rid of
           None \<Rightarrow> Inl (KeyError rid)
         | Some label \<Rightarrow>
             (case Span d start end (Some label) of
                Inl e \<Rightarrow> Inl e
              | Inr sp \<Rightarrow> spans_loop d matches set_label (spans @ [sp])))
      else
        (case Span d start end None of
           Inl e \<Rightarrow> Inl e
         | Inr sp \<Rightarrow> spans_loop d matches set_label (spans @ [sp])))"

definition matches_to_spans :: "doc \<Rightarrow> match list \<Rightarrow> bool \<Rightarrow> error + span list" where
  "matches_to_spans d matches set_label = spans_loop d matches set_label []"

subsection \<open>Notions used in the statements\<close>

text \<open>
  The \<^verbatim>\<open>_rule_id\<close> an object handed to \<^verbatim>\<open>add\<close> carries when the loop body has handled
  it.
\<close>

definition assigned_id :: "py_object \<Rightarrow> string option" where
  "assigned_id obj = (case obj of BaseRule r \<Rightarrow> rule_id r | NotBaseRule \<Rightarrow> None)"


text \<open>Two matches are separate when the overlap test fails for them.\<close>

abbreviation separate :: "match \<Rightarrow> match \<Rightarrow> bool" where
  "separate a b \<equiv> \<not> overlaps a b"

declare prune_bounded.simps [simp del]

section \<open>Properties\<close>

subsection \<open>One pass of the loop, and termination of the pruner\<close>

lemma length_prune_loop:
  "length (prune_loop c u p) \<le> length p + 1 + length u"
proof (induction c u p rule: prune_loop.induct)
  case (1 curr_match pruned)
  then show ?case by simp
next
  case (2 curr_match next_match unpruned pruned)
  show ?case
  proof (cases "overlaps curr_match next_match")
    case True
    show ?thesis
    proof (cases unpruned)
      case Nil
      with True show ?thesis by simp
    next
      case (Cons c unpruned')
      from "2.IH"(1)[OF True refl refl Cons]
      show ?thesis using True Cons by simp
    qed
  next
    case False
    from "2.IH"(2)[OF False] False show ?thesis by simp
  qed
qed

lemma length_sorted_matches [simp]: "length (sorted_matches ms) = length ms"
  by (simp add: sorted_matches_def)

lemma mset_sorted_matches [simp]: "mset (sorted_matches ms) = mset ms"
  by (simp add: sorted_matches_def)

lemma set_sorted_matches [simp]: "set (sorted_matches ms) = set ms"
  by (simp add: sorted_matches_def)

termination prune_overlapping_matches
proof (relation "measure (\<lambda>(ms, s). length ms)")
  show "wf (measure (\<lambda>(ms :: match list, s :: string). length ms))" by simp
next
  fix matches :: "match list" and strategy :: string
    and unpruned num_matches curr_match unpruned' pruned
  assume srt: "unpruned = sorted_matches matches"
    and n: "num_matches = length matches"
    and c: "unpruned = curr_match # unpruned'"
    and p: "pruned = prune_loop curr_match unpruned' []"
    and ne: "length pruned \<noteq> num_matches"
  have "length pruned \<le> 1 + length unpruned'"
    using length_prune_loop [of curr_match unpruned' "[]"] p by simp
  also have "\<dots> = length matches"
    by (metis srt c length_sorted_matches length_Cons plus_1_eq_Suc)
  finally have "length pruned < length matches" using ne n by simp
  then show "((pruned, ''longest''), (matches, strategy)) \<in> measure (\<lambda>(ms, s). length ms)"
    by simp
qed

declare prune_overlapping_matches.simps [simp del]

lemma prune_unfold:
  "prune_overlapping_matches ms ''longest'' =
     (if ms = [] then Inr ms
      else let pruned = prune_loop (hd (sorted_matches ms)) (tl (sorted_matches ms)) []
           in if length pruned = length ms then Inr pruned
              else prune_overlapping_matches pruned ''longest'')"
proof (cases "sorted_matches ms")
  case Nil
  then have "ms = []" using length_sorted_matches [of ms] by simp
  then show ?thesis by (subst prune_overlapping_matches.simps) simp
next
  case (Cons c u)
  then have "ms \<noteq> []" using length_sorted_matches [of ms] by auto
  with Cons show ?thesis
    by (subst prune_overlapping_matches.simps) (simp add: Let_def)
qed


lemma prune_loop_Cons:
  "prune_loop c (n # u) p =
     (if overlaps c n then
        (case u of [] \<Rightarrow> p @ [max_key span_length c n]
         | c' # u' \<Rightarrow> prune_loop c' u' (p @ [max_key span_length c n]))
      else prune_loop n u (p @ [c]))"
  by (simp add: Let_def)

lemma max_key_cases: "max_key f a b = a \<or> max_key f a b = b"
  by (simp add: max_key_def)

lemma mset_prune_loop:
  "mset (prune_loop c u p) \<subseteq># mset p + {#c#} + mset u"
proof (induction c u p rule: prune_loop.induct)
  case (1 curr_match pruned)
  then show ?case by simp
next
  case (2 c n u p)
  show ?case
  proof (cases "overlaps c n")
    case ov: True
    let ?l = "max_key span_length c n"
    have mk: "{#?l#} \<subseteq># {#c, n#}"
      by (simp add: max_key_def)
    show ?thesis
    proof (cases u)
      case Nil
      have step: "prune_loop c (n # u) p = p @ [?l]"
        using ov Nil by (simp add: prune_loop_Cons del: prune_loop.simps)
      have eq: "mset p + {#c, n#} = mset p + {#c#} + mset (n # u)"
        using Nil by simp
      have "mset (p @ [?l]) = mset p + {#?l#}" by simp
      also have "\<dots> \<subseteq># mset p + {#c, n#}"
        by (rule subset_mset.add_left_mono [OF mk])
      finally show ?thesis unfolding step eq .
    next
      case (Cons c' u')
      have step: "prune_loop c (n # u) p = prune_loop c' u' (p @ [?l])"
        using ov Cons by (simp add: prune_loop_Cons del: prune_loop.simps)
      have eq: "mset p + {#c, n#} + {#c'#} + mset u' = mset p + {#c#} + mset (n # u)"
        using Cons by simp
      have "mset (prune_loop c' u' (p @ [?l])) \<subseteq># mset (p @ [?l]) + {#c'#} + mset u'"
        by (rule "2.IH"(1)[OF ov refl refl Cons])
      also have "\<dots> = mset p + {#?l#} + {#c'#} + mset u'" by simp
      also have "\<dots> \<subseteq># mset p + {#c, n#} + {#c'#} + mset u'"
        by (intro subset_mset.add_mono mk subset_mset.order_refl)
      finally show ?thesis unfolding step eq .
    qed
  next
    case False
    have step: "prune_loop c (n # u) p = prune_loop n u (p @ [c])"
      using False by (simp add: prune_loop_Cons del: prune_loop.simps)
    have "mset (prune_loop n u (p @ [c])) \<subseteq># mset (p @ [c]) + {#n#} + mset u"
      by (rule "2.IH"(2)[OF False])
    also have "\<dots> = mset p + {#c#} + mset (n # u)" by simp
    finally show ?thesis unfolding step .
  qed
qed

lemma prune_loop_separate:
  "successively separate (c # u) \<Longrightarrow> prune_loop c u p = p @ c # u"
  by (induction u arbitrary: c p) (simp_all add: prune_loop_Cons del: prune_loop.simps(2))

lemma prune_loop_full_length:
  "length (prune_loop c u p) = length p + 1 + length u \<Longrightarrow> successively separate (c # u)"
proof (induction c u p rule: prune_loop.induct)
  case (1 curr_match pruned)
  then show ?case by simp
next
  case (2 c n u p)
  show ?case
  proof (cases "overlaps c n")
    case ov: True
    show ?thesis
    proof (cases u)
      case Nil
      with ov "2.prems" show ?thesis by (simp add: prune_loop_Cons del: prune_loop.simps)
    next
      case (Cons c' u')
      have "length (prune_loop c' u' (p @ [max_key span_length c n])) \<le> length p + 2 + length u'"
        using length_prune_loop [of c' u' "p @ [max_key span_length c n]"] by simp
      with ov Cons "2.prems" show ?thesis
        by (simp add: prune_loop_Cons del: prune_loop.simps)
    qed
  next
    case False
    with "2.prems" have "length (prune_loop n u (p @ [c])) = length (p @ [c]) + 1 + length u"
      by (simp add: prune_loop_Cons del: prune_loop.simps)
    from "2.IH"(2)[OF False this] False show ?thesis by simp
  qed
qed

lemma hd_tl_sorted_matches:
  "ms \<noteq> [] \<Longrightarrow> hd (sorted_matches ms) # tl (sorted_matches ms) = sorted_matches ms"
  using length_sorted_matches [of ms] by (cases "sorted_matches ms") auto

lemma sorted_sorted_matches: "sorted (map start_end (sorted_matches ms))"
  by (simp add: sorted_matches_def)

lemma prune_returns: "\<exists>out. prune_overlapping_matches ms ''longest'' = Inr out"
proof (induction "length ms" arbitrary: ms rule: less_induct)
  case less
  show ?case
  proof (cases "ms = []")
    case True
    then show ?thesis by (subst prune_unfold) simp
  next
    case False
    let ?p = "prune_loop (hd (sorted_matches ms)) (tl (sorted_matches ms)) []"
    show ?thesis
    proof (cases "length ?p = length ms")
      case True
      with False show ?thesis by (subst prune_unfold) (simp add: Let_def)
    next
      case ne: False
      have "length ?p \<le> 1 + length (tl (sorted_matches ms))"
        using length_prune_loop [of "hd (sorted_matches ms)" "tl (sorted_matches ms)" "[]"] by simp
      also have "\<dots> = length ms"
        using False length_sorted_matches [of ms] by (cases "sorted_matches ms") auto
      finally have "length ?p < length ms" using ne by simp
      from less [OF this] obtain out where "prune_overlapping_matches ?p ''longest'' = Inr out"
        by blast
      with False ne show ?thesis by (subst prune_unfold) (simp add: Let_def)
    qed
  qed
qed

lemma prune_fixpoint:
  "prune_overlapping_matches ms ''longest'' = Inr out \<Longrightarrow>
     sorted (map start_end out) \<and> successively separate out"
proof (induction "length ms" arbitrary: ms rule: less_induct)
  case less
  show ?case
  proof (cases "ms = []")
    case True
    with less.prems have "out = []" by (subst (asm) prune_unfold) simp
    then show ?thesis by simp
  next
    case False
    let ?p = "prune_loop (hd (sorted_matches ms)) (tl (sorted_matches ms)) []"
    have len: "length ?p \<le> length ms"
      using length_prune_loop [of "hd (sorted_matches ms)" "tl (sorted_matches ms)" "[]"]
        False length_sorted_matches [of ms] by (cases "sorted_matches ms") auto
    show ?thesis
    proof (cases "length ?p = length ms")
      case True
      with False less.prems have out: "out = ?p"
        by (subst (asm) prune_unfold) (simp add: Let_def)
      have "length ?p = length [] + 1 + length (tl (sorted_matches ms))"
        using True False length_sorted_matches [of ms] by (cases "sorted_matches ms") auto
      then have sep: "successively separate (sorted_matches ms)"
        using prune_loop_full_length hd_tl_sorted_matches [OF False] by metis
      then have "?p = sorted_matches ms"
        using prune_loop_separate [of "hd (sorted_matches ms)" "tl (sorted_matches ms)" "[]"]
          hd_tl_sorted_matches [OF False] by simp
      with out sep show ?thesis by (simp add: sorted_sorted_matches)
    next
      case ne: False
      with len have lt: "length ?p < length ms" by simp
      from False ne less.prems have "prune_overlapping_matches ?p ''longest'' = Inr out"
        by (subst (asm) prune_unfold) (simp add: Let_def)
      from less.hyps [OF lt this] show ?thesis .
    qed
  qed
qed

lemma prune_mset:
  "prune_overlapping_matches ms ''longest'' = Inr out \<Longrightarrow> mset out \<subseteq># mset ms"
proof (induction "length ms" arbitrary: ms rule: less_induct)
  case less
  show ?case
  proof (cases "ms = []")
    case True
    with less.prems have "out = []" by (subst (asm) prune_unfold) simp
    then show ?thesis by simp
  next
    case False
    let ?p = "prune_loop (hd (sorted_matches ms)) (tl (sorted_matches ms)) []"
    have len: "length ?p \<le> length ms"
      using length_prune_loop [of "hd (sorted_matches ms)" "tl (sorted_matches ms)" "[]"]
        False length_sorted_matches [of ms] by (cases "sorted_matches ms") auto
    have "mset ?p \<subseteq># mset [] + {#hd (sorted_matches ms)#} + mset (tl (sorted_matches ms))"
      by (rule mset_prune_loop)
    also have "\<dots> = mset (hd (sorted_matches ms) # tl (sorted_matches ms))" by simp
    also have "\<dots> = mset ms" using hd_tl_sorted_matches [OF False] by simp
    finally have sub: "mset ?p \<subseteq># mset ms" .
    show ?thesis
    proof (cases "length ?p = length ms")
      case True
      with False less.prems have "out = ?p"
        by (subst (asm) prune_unfold) (simp add: Let_def)
      with sub show ?thesis by simp
    next
      case ne: False
      with len have lt: "length ?p < length ms" by simp
      from False ne less.prems have "prune_overlapping_matches ?p ''longest'' = Inr out"
        by (subst (asm) prune_unfold) (simp add: Let_def)
      from less.hyps [OF lt this] sub show ?thesis by (rule subset_mset.order_trans)
    qed
  qed
qed


lemma overlaps_iff:
  "overlaps a b \<longleftrightarrow>
     (fst (snd b) \<le> fst (snd a) \<and> fst (snd a) < snd (snd b)) \<or>
     (fst (snd b) < snd (snd a) \<and> snd (snd a) \<le> snd (snd b)) \<or>
     (fst (snd a) \<le> fst (snd b) \<and> fst (snd b) < snd (snd a)) \<or>
     (fst (snd a) < snd (snd b) \<and> snd (snd b) \<le> snd (snd a))"
  by (cases a; cases b) (auto simp: overlaps_def)

lemma overlaps_sym: "overlaps a b = overlaps b a"
  by (auto simp: overlaps_def)

lemma chain_arith:
  fixes s1 e1 s2 e2 s3 e3 :: int
  assumes "s1 < s2 \<or> s1 \<le> s2 \<and> e1 \<le> e2" and "s2 < s3 \<or> s2 \<le> s3 \<and> e2 \<le> e3"
    and "\<not> ((s2 \<le> s1 \<and> s1 < e2) \<or> (s2 < e1 \<and> e1 \<le> e2) \<or> (s1 \<le> s2 \<and> s2 < e1) \<or> (s1 < e2 \<and> e2 \<le> e1))"
    and "\<not> ((s3 \<le> s2 \<and> s2 < e3) \<or> (s3 < e2 \<and> e2 \<le> e3) \<or> (s2 \<le> s3 \<and> s3 < e2) \<or> (s2 < e3 \<and> e3 \<le> e2))"
    and "s1 \<le> e1" and "s2 \<le> e2" and "s3 \<le> e3"
  shows "\<not> ((s3 \<le> s1 \<and> s1 < e3) \<or> (s3 < e1 \<and> e1 \<le> e3) \<or> (s1 \<le> s3 \<and> s3 < e1) \<or> (s1 < e3 \<and> e3 \<le> e1))"
proof -
  have o: "s1 \<le> s2" "s2 \<le> s3" using assms(1,2) by auto
  have f1: "e1 \<le> s2" using assms(3) o(1) by auto
  have f2: "e2 \<le> s3" using assms(4) o(2) by auto
  have g1: "s1 < s2 \<or> e2 \<le> s1" "e2 \<le> s1 \<or> e1 < e2" using assms(3) by auto
  have g2: "s2 < s3 \<or> e3 \<le> s2" using assms(4) by auto
  have n23: "\<not> s3 < e1" using f1 o(2) by simp
  have n1: "\<not> (s3 \<le> s1 \<and> s1 < e3)"
  proof
    assume h: "s3 \<le> s1 \<and> s1 < e3"
    with o have eq: "s2 = s1" "s3 = s1" by simp_all
    with g2 have "e3 \<le> s1" by simp
    with h show False by simp
  qed
  have n4: "\<not> (s1 < e3 \<and> e3 \<le> e1)"
  proof
    assume h: "s1 < e3 \<and> e3 \<le> e1"
    with f1 o(2) assms(7) have eq: "e3 = e1" "s2 = e1" "s3 = e1" by simp_all
    with f2 assms(6) have "e2 = e1" by simp
    with g1(2) h eq show False by simp
  qed
  from n23 n1 n4 show ?thesis by auto
qed

lemma separate_chain:
  assumes "start_end a \<le> start_end b" and "start_end b \<le> start_end c"
    and "\<not> overlaps a b" and "\<not> overlaps b c"
    and "fst (snd a) \<le> snd (snd a)" and "fst (snd b) \<le> snd (snd b)"
    and "fst (snd c) \<le> snd (snd c)"
  shows "\<not> overlaps a c"
  using assms unfolding overlaps_iff start_end_def less_eq_prod_def fst_conv snd_conv
  by (rule chain_arith)

lemma sorted_separate_pairwise:
  assumes "sorted (map start_end xs)" and "successively separate xs"
    and "\<forall>m\<in>set xs. fst (snd m) \<le> snd (snd m)"
  shows "sorted_wrt separate xs"
  using assms
proof (induction xs)
  case Nil
  then show ?case by simp
next
  case (Cons a xs)
  show ?case
  proof (cases xs)
    case Nil
    then show ?thesis by simp
  next
    case (Cons b ys)
    have tl: "sorted_wrt separate xs"
      using Cons.IH Cons.prems Cons by (simp add: successively_Cons)
    have ab: "\<not> overlaps a b" using Cons.prems(2) Cons by simp
    have kab: "start_end a \<le> start_end b" using Cons.prems(1) Cons by simp
    have "\<not> overlaps a y" if y: "y \<in> set ys" for y
    proof -
      have "start_end b \<le> start_end y" using Cons.prems(1) Cons y by simp
      moreover have "\<not> overlaps b y" using tl Cons y by simp
      ultimately show ?thesis
        using separate_chain [of a b y] kab ab Cons.prems(3) Cons y by simp
    qed
    with ab tl Cons show ?thesis by auto
  qed
qed

lemma sorted_wrt_nth_iff:
  assumes "\<And>a b. P a b \<Longrightarrow> P b a"
  shows "sorted_wrt P xs \<longleftrightarrow>
    (\<forall>i j. i < length xs \<and> j < length xs \<and> i \<noteq> j \<longrightarrow> P (xs ! i) (xs ! j))"
proof
  assume s: "sorted_wrt P xs"
  show "\<forall>i j. i < length xs \<and> j < length xs \<and> i \<noteq> j \<longrightarrow> P (xs ! i) (xs ! j)"
  proof (intro allI impI)
    fix i j assume h: "i < length xs \<and> j < length xs \<and> i \<noteq> j"
    show "P (xs ! i) (xs ! j)"
    proof (cases "i < j")
      case True
      with s h show ?thesis by (simp add: sorted_wrt_iff_nth_less)
    next
      case False
      with h have "j < i" by simp
      with s h have "P (xs ! j) (xs ! i)" by (simp add: sorted_wrt_iff_nth_less)
      then show ?thesis by (rule assms)
    qed
  qed
next
  assume "\<forall>i j. i < length xs \<and> j < length xs \<and> i \<noteq> j \<longrightarrow> P (xs ! i) (xs ! j)"
  then show "sorted_wrt P xs" by (simp add: sorted_wrt_iff_nth_less)
qed

lemma separate_nth_iff:
  "sorted_wrt separate xs \<longleftrightarrow>
    (\<forall>i j. i < length xs \<and> j < length xs \<and> i \<noteq> j \<longrightarrow> \<not> overlaps (xs ! i) (xs ! j))"
  by (rule sorted_wrt_nth_iff) (simp add: overlaps_sym)

lemma sorted_wrt_insort_key:
  assumes "\<And>a b. P a b \<Longrightarrow> P b a"
  shows "sorted_wrt P (insort_key f a xs) \<longleftrightarrow> (\<forall>y\<in>set xs. P a y) \<and> sorted_wrt P xs"
  using assms by (induction xs) (auto simp: set_insort_key)

lemma sorted_wrt_sort_key:
  assumes "\<And>a b. P a b \<Longrightarrow> P b a"
  shows "sorted_wrt P (sort_key f xs) \<longleftrightarrow> sorted_wrt P xs"
  by (induction xs) (simp_all add: sorted_wrt_insort_key [OF assms])

lemma separate_sorted_matches:
  "sorted_wrt separate (sorted_matches ms) \<longleftrightarrow> sorted_wrt separate ms"
  unfolding sorted_matches_def by (rule sorted_wrt_sort_key) (simp add: overlaps_sym)

lemma prune_separate_input:
  assumes "sorted_wrt separate ms"
  shows "prune_overlapping_matches ms ''longest'' = Inr (sorted_matches ms)"
proof (cases "ms = []")
  case True
  then show ?thesis by (subst prune_unfold) (simp add: sorted_matches_def)
next
  case False
  have "successively separate (sorted_matches ms)"
    using assms separate_sorted_matches [of ms] by (simp add: successively_if_sorted_wrt)
  then have "prune_loop (hd (sorted_matches ms)) (tl (sorted_matches ms)) [] = sorted_matches ms"
    using prune_loop_separate [of "hd (sorted_matches ms)" "tl (sorted_matches ms)" "[]"]
      hd_tl_sorted_matches [OF False] by simp
  with False show ?thesis by (subst prune_unfold) (simp add: Let_def)
qed

lemma sorted_matches_id: "sorted (map start_end xs) \<Longrightarrow> sorted_matches xs = xs"
  by (simp add: sorted_matches_def sort_key_id_if_sorted)

lemma prune_fixpoint_again:
  assumes "sorted (map start_end xs)" and "successively separate xs"
  shows "prune_overlapping_matches xs ''longest'' = Inr xs"
proof (cases "xs = []")
  case True
  then show ?thesis by (subst prune_unfold) simp
next
  case False
  have id: "sorted_matches xs = xs" using assms(1) by (rule sorted_matches_id)
  have "prune_loop (hd xs) (tl xs) [] = xs"
    using prune_loop_separate [of "hd xs" "tl xs" "[]"] assms(2) False by simp
  with False id show ?thesis by (subst prune_unfold) (simp add: Let_def)
qed

lemma prune_bounded_enough:
  "length ms \<le> Suc n \<Longrightarrow> prune_bounded n ms s = Some (prune_overlapping_matches ms s)"
proof (induction n arbitrary: ms s)
  case 0
  show ?case
  proof (cases "sorted_matches ms")
    case Nil
    then have "ms = []" using length_sorted_matches [of ms] by simp
    then show ?thesis
      by (subst prune_overlapping_matches.simps, subst prune_bounded.simps) simp
  next
    case (Cons c u)
    have "length (sorted_matches ms) = length ms" by simp
    with Cons 0 have "u = []" by (cases u) auto
    with Cons have "length ms = 1" using length_sorted_matches [of ms] by simp
    with Cons \<open>u = []\<close> show ?thesis
      by (subst prune_overlapping_matches.simps, subst prune_bounded.simps) (simp add: Let_def)
  qed
next
  case (Suc n)
  show ?case
  proof (cases "sorted_matches ms")
    case Nil
    then have "ms = []" using length_sorted_matches [of ms] by simp
    then show ?thesis
      by (subst prune_overlapping_matches.simps, subst prune_bounded.simps) simp
  next
    case (Cons c u)
    then have len: "length ms = Suc (length u)" using length_sorted_matches [of ms] by simp
    let ?p = "prune_loop c u []"
    show ?thesis
    proof (cases "length ?p = length ms")
      case True
      with Cons len show ?thesis
        by (subst prune_overlapping_matches.simps, subst prune_bounded.simps) (simp add: Let_def)
    next
      case False
      have "length ?p \<le> length ms" using length_prune_loop [of c u "[]"] len by simp
      with False Suc.prems have "length ?p \<le> Suc n" by simp
      from Suc.IH [OF this]
      have "prune_bounded n ?p ''longest'' = Some (prune_overlapping_matches ?p ''longest'')" .
      with Cons len False show ?thesis
        by (subst prune_overlapping_matches.simps, subst prune_bounded.simps) (simp add: Let_def)
    qed
  qed
qed

subsection \<open>The accumulator of the loop, and lists of one match\<close>

lemma prune_loop_append: "prune_loop c u (p @ q) = p @ prune_loop c u q"
proof (induction c u q rule: prune_loop.induct)
  case (1 curr_match pruned)
  then show ?case by simp
next
  case (2 c n u q)
  show ?case
  proof (cases "overlaps c n")
    case ov: True
    show ?thesis
    proof (cases u)
      case Nil
      with ov show ?thesis by (simp add: prune_loop_Cons del: prune_loop.simps)
    next
      case (Cons c' u')
      from "2.IH"(1)[OF ov refl refl Cons] ov Cons show ?thesis
        by (simp add: prune_loop_Cons del: prune_loop.simps)
    qed
  next
    case False
    from "2.IH"(2)[OF False] False show ?thesis
      by (simp add: prune_loop_Cons del: prune_loop.simps)
  qed
qed

lemma prune_loop_acc: "prune_loop c u p = p @ prune_loop c u []"
  using prune_loop_append [of c u p "[]"] by simp

lemma prune_single: "prune_overlapping_matches [a] ''longest'' = Inr [a]"
  by (subst prune_unfold) (simp add: sorted_matches_def)

lemma start_end_le_iff:
  "start_end a \<le> start_end b \<longleftrightarrow>
     fst (snd a) < fst (snd b) \<or> fst (snd a) = fst (snd b) \<and> snd (snd a) \<le> snd (snd b)"
  by (auto simp: start_end_def less_eq_prod_def)


subsection \<open>The copy in the target matcher computes the same function\<close>

lemma tm_overlaps_eq: "tm_overlaps a b = overlaps a b"
  by (cases a; cases b) (simp add: tm_overlaps_def overlaps_def)

lemma tm_prune_loop_eq: "tm_prune_loop c u p = prune_loop c u p"
  by (induction c u p rule: prune_loop.induct)
     (simp_all add: tm_overlaps_eq Let_def split: list.splits)

termination tm_prune_overlapping_matches
proof (relation "measure (\<lambda>(ms, s). length ms)")
  show "wf (measure (\<lambda>(ms :: match list, s :: string). length ms))" by simp
next
  fix matches :: "match list" and strategy :: string
    and unpruned num_matches curr_match unpruned' pruned
  assume srt: "unpruned = sorted_matches matches"
    and n: "num_matches = length matches"
    and c: "unpruned = curr_match # unpruned'"
    and p: "pruned = tm_prune_loop curr_match unpruned' []"
    and ne: "length pruned \<noteq> num_matches"
  have "length pruned \<le> 1 + length unpruned'"
    using length_prune_loop [of curr_match unpruned' "[]"] p by (simp add: tm_prune_loop_eq)
  also have "\<dots> = length matches"
    by (metis srt c length_sorted_matches length_Cons plus_1_eq_Suc)
  finally have "length pruned < length matches" using ne n by simp
  then show "((pruned, ''longest''), (matches, strategy)) \<in> measure (\<lambda>(ms, s). length ms)"
    by simp
qed

declare tm_prune_overlapping_matches.simps [simp del]

lemma tm_prune_eq:
  "tm_prune_overlapping_matches ms s = prune_overlapping_matches ms s"
proof (induction ms s rule: prune_overlapping_matches.induct)
  case (1 matches strategy)
  show ?case
  proof (cases "strategy \<noteq> ''longest''")
    case True
    then show ?thesis
      by (subst tm_prune_overlapping_matches.simps, subst prune_overlapping_matches.simps) simp
  next
    case lg: False
    show ?thesis
    proof (cases "sorted_matches matches")
      case Nil
      then show ?thesis
        by (subst tm_prune_overlapping_matches.simps, subst prune_overlapping_matches.simps)
           (simp add: Let_def)
    next
      case (Cons c u)
      show ?thesis
      proof (cases "length matches = 0 \<or> length (prune_loop c u []) = length matches")
        case True
        with Cons show ?thesis
          by (subst tm_prune_overlapping_matches.simps, subst prune_overlapping_matches.simps)
             (auto simp: Let_def tm_prune_loop_eq)
      next
        case False
        then have a: "length matches \<noteq> 0" and b: "length (prune_loop c u []) \<noteq> length matches"
          by simp_all
        have "tm_prune_overlapping_matches (prune_loop c u []) ''longest'' =
              prune_overlapping_matches (prune_loop c u []) ''longest''"
          using "1.IH" [OF lg refl refl a Cons refl b] .
        with Cons a b lg show ?thesis
          by (subst tm_prune_overlapping_matches.simps, subst prune_overlapping_matches.simps)
             (simp add: Let_def tm_prune_loop_eq)
      qed
    qed
  qed
qed


subsection \<open>Claims about the pruner\<close>

text \<open>
  C1 (no-overlap postcondition).  For every list of matches, each with \<open>start \<le> end\<close>
  (the data model has \<open>0 \<le> start < end\<close>), pruning with the strategy \<open>longest\<close> returns a
  list in which no two entries at different positions satisfy the overlap test, in
  either direction of \<^verbatim>\<open>_match_overlaps\<close>.
\<close>

theorem prune_no_overlap:
  assumes "\<forall>m\<in>set matches. fst (snd m) \<le> snd (snd m)"
  shows "\<exists>out. prune_overlapping_matches matches ''longest'' = Inr out \<and>
           (\<forall>i j. i < length out \<and> j < length out \<and> i \<noteq> j \<longrightarrow>
              \<not> overlaps (out ! i) (out ! j) \<and> \<not> match_overlaps (out ! i) (out ! j))"
proof -
  obtain out where out: "prune_overlapping_matches matches ''longest'' = Inr out"
    using prune_returns by blast
  have fp: "sorted (map start_end out)" "successively separate out"
    using prune_fixpoint [OF out] by simp_all
  have "set_mset (mset out) \<subseteq> set_mset (mset matches)"
    using prune_mset [OF out] by (rule set_mset_mono)
  then have "\<forall>m\<in>set out. fst (snd m) \<le> snd (snd m)" using assms by auto
  with fp have "sorted_wrt separate out" by (rule sorted_separate_pairwise)
  then have sep: "\<forall>i j. i < length out \<and> j < length out \<and> i \<noteq> j \<longrightarrow> \<not> overlaps (out ! i) (out ! j)"
    by (simp only: separate_nth_iff)
  have "\<not> match_overlaps a b" if "\<not> overlaps a b" for a b
    using that by (auto simp: overlaps_def)
  with sep out show ?thesis by blast
qed

text \<open>The pruner on four matches of which three chain: two survive, and they do not overlap.\<close>

theorem prune_no_overlap_witness:
  "list_all (\<lambda>m. fst (snd m) \<le> snd (snd m)) [(1,0,3),(2,2,6),(3,5,9),(4,10,12) :: match] \<and>
   (\<exists>out. prune_overlapping_matches [(1,0,3),(2,2,6),(3,5,9),(4,10,12)] ''longest'' = Inr out \<and>
      out = [(2,2,6),(4,10,12)] \<and>
      (\<forall>i j. i < length out \<and> j < length out \<and> i \<noteq> j \<longrightarrow>
              \<not> overlaps (out ! i) (out ! j) \<and> \<not> match_overlaps (out ! i) (out ! j)))"
proof -
  have ev: "prune_overlapping_matches [(1,0,3),(2,2,6),(3,5,9),(4,10,12)] ''longest''
              = Inr [(2,2,6),(4,10,12)]"
    by code_simp
  have h: "\<forall>m\<in>set [(1,0,3),(2,2,6),(3,5,9),(4,10,12::int)]. fst (snd m) \<le> (snd (snd m) :: int)"
    by simp
  from prune_no_overlap [OF h] ev show ?thesis by simp
qed

text \<open>
  C2 (termination).  The pruner returns on every input: a budget of \<open>length matches - 1\<close>
  recursive calls is enough for the budgeted pruner to return, with the result of the
  pruner itself, so there are at most \<open>length matches\<close> passes over a non-empty list.  A
  pass never returns more matches than it was given, so the recursive call, taken when
  the lengths differ, is on a strictly shorter list.
\<close>

theorem prune_terminates:
  "prune_bounded (length matches - 1) matches strategy
     = Some (prune_overlapping_matches matches strategy) \<and>
   length (prune_loop curr_match unpruned []) \<le> length (curr_match # unpruned)"
proof
  have "length matches \<le> Suc (length matches - 1)" by simp
  then show "prune_bounded (length matches - 1) matches strategy
     = Some (prune_overlapping_matches matches strategy)"
    by (rule prune_bounded_enough)
  show "length (prune_loop curr_match unpruned []) \<le> length (curr_match # unpruned)"
    using length_prune_loop [of curr_match unpruned "[]"] by simp
qed

text \<open>Three chained matches need both recursive calls of the budget.\<close>

theorem prune_terminates_witness:
  "prune_bounded (length [(1,0,3),(2,2,6),(3,5,9) :: match] - 1) [(1,0,3),(2,2,6),(3,5,9)] ''longest''
     = Some (Inr [(2,2,6)]) \<and>
   length (prune_loop (1,0,3) [(2,2,6),(3,5,9)] []) \<le> length [(1,0,3),(2,2,6),(3,5,9) :: match]"
proof -
  have ev: "prune_overlapping_matches [(1,0,3),(2,2,6),(3,5,9)] ''longest'' = Inr [(2,2,6)]"
    by code_simp
  from prune_terminates [of "[(1,0,3),(2,2,6),(3,5,9)]" "''longest''" "(1,0,3)" "[(2,2,6),(3,5,9)]"]
  show ?thesis unfolding ev .
qed

text \<open>
  C5 (ties).  When the current match and the next one overlap and have equal span
  length, \<^verbatim>\<open>max\<close> returns the current match, which is the one the loop appends.  So in a
  pass over a list whose sorted order starts with such a pair, the first of the pair is
  emitted, the second is dropped, and the pass goes on with the rest.  And for a list of
  just two such matches, given in either order, the pruner returns the one that comes
  first by \<open>(start, end)\<close>; when both have the same start and end, the one given first.
\<close>

theorem tie_keeps_first:
  assumes "overlaps curr_match next_match"
    and "span_length curr_match = span_length next_match"
  shows "max_key span_length curr_match next_match = curr_match \<and>
         prune_loop curr_match (next_match # unpruned) pruned =
           (case unpruned of
              [] \<Rightarrow> pruned @ [curr_match]
            | c # u \<Rightarrow> prune_loop c u (pruned @ [curr_match])) \<and>
         (sorted_matches ms = curr_match # next_match # rest \<longrightarrow>
            prune_loop (hd (sorted_matches ms)) (tl (sorted_matches ms)) [] =
              curr_match # (case rest of [] \<Rightarrow> [] | c # u \<Rightarrow> prune_loop c u [])) \<and>
         prune_overlapping_matches [curr_match, next_match] ''longest'' =
           Inr [if fst (snd curr_match) < fst (snd next_match) \<or>
                   fst (snd curr_match) = fst (snd next_match) \<and>
                   snd (snd curr_match) \<le> snd (snd next_match)
                then curr_match else next_match] \<and>
         prune_overlapping_matches [next_match, curr_match] ''longest'' =
           Inr [if fst (snd next_match) < fst (snd curr_match) \<or>
                   fst (snd next_match) = fst (snd curr_match) \<and>
                   snd (snd next_match) \<le> snd (snd curr_match)
                then next_match else curr_match]"
proof -
  have mk: "max_key span_length curr_match next_match = curr_match"
    using assms(2) by (simp add: max_key_def)
  have mk': "max_key span_length next_match curr_match = next_match"
    using assms(2) by (simp add: max_key_def)
  have ov': "overlaps next_match curr_match"
    using assms(1) by (simp add: overlaps_sym)
  have lp: "prune_loop curr_match (next_match # unpruned) pruned =
           (case unpruned of
              [] \<Rightarrow> pruned @ [curr_match]
            | c # u \<Rightarrow> prune_loop c u (pruned @ [curr_match]))" for unpruned pruned
    using assms(1) mk by (simp add: prune_loop_Cons del: prune_loop.simps split: list.splits)
  have lp': "prune_loop next_match [curr_match] [] = [next_match]"
    using ov' mk' by (simp add: prune_loop_Cons del: prune_loop.simps)
  have pass: "prune_loop (hd (sorted_matches ms)) (tl (sorted_matches ms)) [] =
              curr_match # (case rest of [] \<Rightarrow> [] | c # u \<Rightarrow> prune_loop c u [])"
    if srt: "sorted_matches ms = curr_match # next_match # rest"
  proof (cases rest)
    case Nil
    with srt lp [of rest "[]"] show ?thesis by simp
  next
    case (Cons c u)
    have "prune_loop c u [curr_match] = [curr_match] @ prune_loop c u []"
      by (rule prune_loop_acc)
    with srt Cons lp [of rest "[]"] show ?thesis by simp
  qed
  have pair: "prune_overlapping_matches [x, y] ''longest'' =
                Inr [if start_end x \<le> start_end y then x else y]"
    if o: "overlaps x y" and m: "max_key span_length x y = x" "max_key span_length y x = y"
    for x y
  proof (cases "start_end x \<le> start_end y")
    case True
    then have s: "sorted_matches [x, y] = [x, y]" by (simp add: sorted_matches_def)
    have "prune_loop x [y] [] = [x]"
      using o m(1) by (simp add: prune_loop_Cons del: prune_loop.simps)
    with True s show ?thesis by (subst prune_unfold) (simp add: prune_single)
  next
    case False
    then have s: "sorted_matches [x, y] = [y, x]" by (simp add: sorted_matches_def)
    have "prune_loop y [x] [] = [y]"
      using o m(2) by (simp add: prune_loop_Cons overlaps_sym del: prune_loop.simps)
    with False s show ?thesis by (subst prune_unfold) (simp add: prune_single)
  qed
  have p1: "prune_overlapping_matches [curr_match, next_match] ''longest'' =
           Inr [if fst (snd curr_match) < fst (snd next_match) \<or>
                   fst (snd curr_match) = fst (snd next_match) \<and>
                   snd (snd curr_match) \<le> snd (snd next_match)
                then curr_match else next_match]"
    using pair [OF assms(1) mk mk'] by (simp only: start_end_le_iff)
  have p2: "prune_overlapping_matches [next_match, curr_match] ''longest'' =
           Inr [if fst (snd next_match) < fst (snd curr_match) \<or>
                   fst (snd next_match) = fst (snd curr_match) \<and>
                   snd (snd next_match) \<le> snd (snd curr_match)
                then next_match else curr_match]"
    using pair [OF ov' mk' mk] by (simp only: start_end_le_iff)
  from mk lp pass p1 p2 show ?thesis by blast
qed

text \<open>
  Matches \<open>(1, 0, 2)\<close> and \<open>(2, 1, 3)\<close> overlap and both have length 2: the first by
  \<open>(start, end)\<close> survives whichever order they are given in.  Matches \<open>(2, 0, 2)\<close> and
  \<open>(1, 0, 2)\<close> have the same start and end: the one given first survives.
\<close>

theorem tie_keeps_first_witness:
  "overlaps (1,0,2) (2,1,3) \<and> span_length (1,0,2) = span_length (2,1,3) \<and>
   max_key span_length (1,0,2) (2,1,3) = (1,0,2) \<and>
   prune_loop (1,0,2) [(2,1,3),(3,7,9)] [] = prune_loop (3,7,9) [] [(1,0,2)] \<and>
   sorted_matches [(3,7,9),(2,1,3),(1,0,2)] = [(1,0,2),(2,1,3),(3,7,9)] \<and>
   prune_loop (hd (sorted_matches [(3,7,9),(2,1,3),(1,0,2)]))
              (tl (sorted_matches [(3,7,9),(2,1,3),(1,0,2)])) [] = [(1,0,2),(3,7,9)] \<and>
   prune_overlapping_matches [(1,0,2),(2,1,3)] ''longest'' = Inr [(1,0,2)] \<and>
   prune_overlapping_matches [(2,1,3),(1,0,2)] ''longest'' = Inr [(1,0,2)] \<and>
   overlaps (2,0,2) (1,0,2) \<and> span_length (2,0,2) = span_length (1,0,2) \<and>
   prune_overlapping_matches [(2,0,2),(1,0,2)] ''longest'' = Inr [(2,0,2)] \<and>
   prune_overlapping_matches [(1,0,2),(2,0,2)] ''longest'' = Inr [(1,0,2)]"
proof -
  have a: "overlaps (1,0,2) (2,1,3)" by (simp add: overlaps_def)
  have b: "span_length (1,0,2) = span_length (2,1,3)" by (simp add: span_length_def)
  have s: "sorted_matches [(3,7,9),(2,1,3),(1,0,2)] = [(1,0,2),(2,1,3),(3,7,9)]"
    by code_simp
  have a2: "overlaps (2,0,2) (1,0,2)" by (simp add: overlaps_def)
  have b2: "span_length (2,0,2) = span_length (1,0,2)" by (simp add: span_length_def)
  from tie_keeps_first [OF a b, of "[(3,7,9)]" "[]" "[(3,7,9),(2,1,3),(1,0,2)]" "[(3,7,9)]"]
    tie_keeps_first [OF a2 b2, of "[]" "[]" "[]" "[]"]
    a b s a2 b2
  show ?thesis by simp
qed

text \<open>
  C6 (touching matches).  Two matches with \<open>start < end\<close> of which the first ends where
  the second starts do not satisfy the overlap test, and the pruner returns both, in
  sorted order, whichever order they are given in.
\<close>

theorem touching_matches_survive:
  assumes "fst (snd a) < snd (snd a)" and "fst (snd b) < snd (snd b)"
    and "snd (snd a) = fst (snd b)"
  shows "\<not> overlaps a b \<and> \<not> overlaps b a \<and>
         prune_overlapping_matches [a, b] ''longest'' = Inr [a, b] \<and>
         prune_overlapping_matches [b, a] ''longest'' = Inr [a, b]"
proof -
  have ab: "\<not> overlaps a b" using assms by (simp add: overlaps_iff)
  then have ba: "\<not> overlaps b a" by (simp add: overlaps_sym)
  have lt: "start_end a < start_end b"
    using assms by (simp add: start_end_def less_prod_def)
  have le: "start_end a \<le> start_end b" and nle: "\<not> start_end b \<le> start_end a"
    using lt by auto
  have s1: "sorted_matches [a, b] = [a, b]" using le by (simp add: sorted_matches_def)
  have s2: "sorted_matches [b, a] = [a, b]" using nle by (simp add: sorted_matches_def)
  have p1: "prune_overlapping_matches [a, b] ''longest'' = Inr [a, b]"
    using ab by (subst prune_unfold) (simp add: s1)
  have p2: "prune_overlapping_matches [b, a] ''longest'' = Inr [a, b]"
    using ab by (subst prune_unfold) (simp add: s2)
  from ab ba p1 p2 show ?thesis by simp
qed

text \<open>The example of the specification: \<open>(r1, 0, 3)\<close> and \<open>(r2, 3, 5)\<close>.\<close>

theorem touching_matches_survive_witness:
  "\<not> overlaps (1,0,3) (2,3,5) \<and>
   prune_overlapping_matches [(1,0,3),(2,3,5)] ''longest'' = Inr [(1,0,3),(2,3,5)]"
  using touching_matches_survive [of "(1,0,3)" "(2,3,5)"] by simp

text \<open>
  C7 (idempotence).  If no two entries of the list at different positions overlap, the
  pruner returns the list sorted by \<open>(start, end)\<close>, which has the same multiset of
  matches.  And for every list \<open>x\<close>, pruning the result of pruning \<open>x\<close> returns it
  unchanged.
\<close>

theorem prune_idempotent:
  "((\<forall>i j. i < length ms \<and> j < length ms \<and> i \<noteq> j \<longrightarrow> \<not> overlaps (ms ! i) (ms ! j)) \<longrightarrow>
      prune_overlapping_matches ms ''longest'' = Inr (sorted_matches ms) \<and>
      mset (sorted_matches ms) = mset ms \<and>
      sorted (map start_end (sorted_matches ms))) \<and>
   (\<exists>out. prune_overlapping_matches x ''longest'' = Inr out \<and>
          prune_overlapping_matches out ''longest'' = Inr out)"
proof
  show "(\<forall>i j. i < length ms \<and> j < length ms \<and> i \<noteq> j \<longrightarrow> \<not> overlaps (ms ! i) (ms ! j)) \<longrightarrow>
      prune_overlapping_matches ms ''longest'' = Inr (sorted_matches ms) \<and>
      mset (sorted_matches ms) = mset ms \<and>
      sorted (map start_end (sorted_matches ms))"
  proof
    assume "\<forall>i j. i < length ms \<and> j < length ms \<and> i \<noteq> j \<longrightarrow> \<not> overlaps (ms ! i) (ms ! j)"
    then have "sorted_wrt separate ms" by (simp only: separate_nth_iff)
    then have "prune_overlapping_matches ms ''longest'' = Inr (sorted_matches ms)"
      by (rule prune_separate_input)
    then show "prune_overlapping_matches ms ''longest'' = Inr (sorted_matches ms) \<and>
      mset (sorted_matches ms) = mset ms \<and>
      sorted (map start_end (sorted_matches ms))"
      by (simp add: sorted_sorted_matches)
  qed
next
  obtain out where out: "prune_overlapping_matches x ''longest'' = Inr out"
    using prune_returns by blast
  have "sorted (map start_end out)" and "successively separate out"
    using prune_fixpoint [OF out] by simp_all
  then have "prune_overlapping_matches out ''longest'' = Inr out"
    by (rule prune_fixpoint_again)
  with out show "\<exists>out. prune_overlapping_matches x ''longest'' = Inr out \<and>
          prune_overlapping_matches out ''longest'' = Inr out"
    by blast
qed

text \<open>
  Three matches without overlap, given out of order, come back sorted; and the result of
  pruning three chained matches is a fixed point.
\<close>

theorem prune_idempotent_witness:
  "list_all (\<lambda>(i, j). i = j \<or> \<not> overlaps ([(2,3,5),(1,0,3),(3,7,9)] ! i) ([(2,3,5),(1,0,3),(3,7,9)] ! j))
     (List.product [0,1,2] [0,1,2]) \<and>
   prune_overlapping_matches [(2,3,5),(1,0,3),(3,7,9)] ''longest'' = Inr [(1,0,3),(2,3,5),(3,7,9)] \<and>
   (\<exists>out. prune_overlapping_matches [(1,0,3),(2,2,6),(3,5,9)] ''longest'' = Inr out \<and>
          prune_overlapping_matches out ''longest'' = Inr out)"
proof -
  let ?ms = "[(2,3,5),(1,0,3),(3,7,9)] :: match list"
  have sep: "sorted_wrt separate ?ms" by (simp add: overlaps_def)
  then have h: "\<forall>i j. i < length ?ms \<and> j < length ?ms \<and> i \<noteq> j \<longrightarrow> \<not> overlaps (?ms ! i) (?ms ! j)"
    by (simp only: separate_nth_iff)
  have srt: "sorted_matches ?ms = [(1,0,3),(2,3,5),(3,7,9)]" by code_simp
  have a: "list_all (\<lambda>(i, j). i = j \<or> \<not> overlaps (?ms ! i) (?ms ! j)) (List.product [0,1,2] [0,1,2])"
    by (simp add: overlaps_def)
  from prune_idempotent [of ?ms "[(1,0,3),(2,2,6),(3,5,9)]"] h srt a show ?thesis by simp
qed

text \<open>
  C9 (unsupported strategy).  For a strategy other than \<open>longest\<close> the pruner raises
  \<^verbatim>\<open>NotImplementedError\<close>, whatever the list of matches, and it does so without a
  recursive call; the copy in the target matcher does the same.
\<close>

theorem unsupported_strategy:
  assumes "strategy \<noteq> ''longest''"
  shows "prune_overlapping_matches matches strategy = Inl NotImplementedError \<and>
         prune_bounded 0 matches strategy = Some (Inl NotImplementedError) \<and>
         tm_prune_overlapping_matches matches strategy = Inl NotImplementedError"
  using assms
  by (simp add: prune_overlapping_matches.simps [of matches strategy]
      prune_bounded.simps [of 0 matches strategy]
      tm_prune_overlapping_matches.simps [of matches strategy])

text \<open>The strategy \<open>shortest\<close> of the specification's example.\<close>

theorem unsupported_strategy_witness:
  "''shortest'' \<noteq> ''longest'' \<and>
   prune_overlapping_matches [(1,0,3),(2,2,6)] ''shortest'' = Inl NotImplementedError"
  using unsupported_strategy [of "''shortest''" "[(1,0,3),(2,2,6)]"] by simp

text \<open>
  C10 (the output is part of the input).  With the strategy \<open>longest\<close> both copies of
  the pruner return a list whose multiset of triples is contained in that of the input,
  hence every returned triple is an input triple and the output is no longer than the
  input; with any other strategy they return no list.
\<close>

theorem prune_sub_multiset:
  "(\<exists>out. prune_overlapping_matches ms ''longest'' = Inr out \<and>
          mset out \<subseteq># mset ms \<and> set out \<subseteq> set ms \<and> length out \<le> length ms) \<and>
   (\<exists>out. tm_prune_overlapping_matches ms ''longest'' = Inr out \<and>
          mset out \<subseteq># mset ms \<and> set out \<subseteq> set ms \<and> length out \<le> length ms) \<and>
   (\<forall>strategy. strategy \<noteq> ''longest'' \<longrightarrow>
      prune_overlapping_matches ms strategy = Inl NotImplementedError \<and>
      tm_prune_overlapping_matches ms strategy = Inl NotImplementedError)"
proof -
  obtain out where out: "prune_overlapping_matches ms ''longest'' = Inr out"
    using prune_returns by blast
  have sub: "mset out \<subseteq># mset ms" using out by (rule prune_mset)
  then have s: "set out \<subseteq> set ms" using set_mset_mono by fastforce
  have l: "length out \<le> length ms" using size_mset_mono [OF sub] by simp
  have tm: "tm_prune_overlapping_matches ms ''longest'' = Inr out"
    using out by (simp add: tm_prune_eq)
  have e: "prune_overlapping_matches ms strategy = Inl NotImplementedError \<and>
      tm_prune_overlapping_matches ms strategy = Inl NotImplementedError"
    if "strategy \<noteq> ''longest''" for strategy
    using that
    by (simp add: prune_overlapping_matches.simps [of ms strategy]
        tm_prune_overlapping_matches.simps [of ms strategy])
  from out sub s l tm e show ?thesis by blast
qed

text \<open>The containment example of the specification, with a third match apart.\<close>

theorem prune_sub_multiset_witness:
  "\<exists>out. prune_overlapping_matches [(1,2,8),(2,3,5),(3,9,10)] ''longest'' = Inr out \<and>
         out = [(1,2,8),(3,9,10)] \<and>
         mset out \<subseteq># mset [(1,2,8),(2,3,5),(3,9,10)] \<and>
         length out \<le> length [(1,2,8),(2,3,5),(3,9,10) :: match]"
proof -
  have ev: "prune_overlapping_matches [(1,2,8),(2,3,5),(3,9,10)] ''longest'' = Inr [(1,2,8),(3,9,10)]"
    by code_simp
  from prune_sub_multiset [of "[(1,2,8),(2,3,5),(3,9,10)]"] ev show ?thesis by auto
qed

subsection \<open>Matches outside the data model\<close>

text \<open>
  The hypothesis of C1 cannot be dropped: a triple whose end lies before its start is
  not a match of the data model, and with one in the list the sweep over the sorted list
  finds no adjacent overlap although the first and the last triple overlap.
\<close>

lemma prune_ill_formed_end_before_start:
  "prune_overlapping_matches [(1, 0, 5), (2, 5, 6), (3, 6, 3)] ''longest''
     = Inr [(1, 0, 5), (2, 5, 6), (3, 6, 3)] \<and>
   overlaps (1, 0, 5) (3, 6, 3)"
  by code_simp

subsection \<open>Rule ids assigned by calls of add that do not raise\<close>

lemma str_nat_nonempty: "str_nat n \<noteq> []"
  by (subst str_nat.simps) simp

lemma digit_inj: "d < 10 \<Longrightarrow> e < 10 \<Longrightarrow> digit d = digit e \<Longrightarrow> d = e"
proof -
  assume a: "d < 10" "e < 10" "digit d = digit e"
  have "distinct ''0123456789''" by simp
  moreover have "d < length ''0123456789''" "e < length ''0123456789''" using a by simp_all
  ultimately show "d = e" using a(3) unfolding digit_def by (simp only: nth_eq_iff_index_eq)
qed

lemma digit_not_underscore: "d < 10 \<Longrightarrow> digit d \<noteq> CHR ''_''"
proof -
  assume "d < 10"
  then have "d < length ''0123456789''" by simp
  then have "''0123456789'' ! d \<in> set ''0123456789''" by (rule nth_mem)
  then show ?thesis unfolding digit_def by auto
qed

lemma str_nat_inj: "str_nat n = str_nat m \<Longrightarrow> n = m"
proof (induction n arbitrary: m rule: str_nat.induct)
  case (1 n)
  show ?case
  proof (cases "n < 10")
    case nlt: True
    show ?thesis
    proof (cases "m < 10")
      case True
      with nlt "1.prems" have "digit n = digit m"
        by (simp add: str_nat.simps [of n] str_nat.simps [of m])
      with nlt True show ?thesis by (rule digit_inj)
    next
      case False
      with nlt "1.prems" have "[digit n] = str_nat (m div 10) @ [digit (m mod 10)]"
        by (simp add: str_nat.simps [of n] str_nat.simps [of m])
      then have "str_nat (m div 10) = []" by simp
      with str_nat_nonempty show ?thesis by blast
    qed
  next
    case nge: False
    show ?thesis
    proof (cases "m < 10")
      case True
      with nge "1.prems" have "str_nat (n div 10) @ [digit (n mod 10)] = [digit m]"
        by (simp add: str_nat.simps [of n] str_nat.simps [of m])
      then have "str_nat (n div 10) = []" by simp
      with str_nat_nonempty show ?thesis by blast
    next
      case False
      with nge "1.prems"
      have "str_nat (n div 10) @ [digit (n mod 10)] = str_nat (m div 10) @ [digit (m mod 10)]"
        by (simp add: str_nat.simps [of n] str_nat.simps [of m])
      then have a: "str_nat (n div 10) = str_nat (m div 10)"
        and b: "digit (n mod 10) = digit (m mod 10)" by simp_all
      from "1.IH" [OF nge a] have "n div 10 = m div 10" .
      moreover have "n mod 10 = m mod 10" using b by (intro digit_inj) simp_all
      ultimately show ?thesis by (metis div_mult_mod_eq)
    qed
  qed
qed

lemma str_nat_no_underscore: "CHR ''_'' \<notin> set (str_nat n)"
proof (induction n rule: str_nat.induct)
  case (1 n)
  show ?case
  proof (cases "n < 10")
    case True
    then show ?thesis using digit_not_underscore [of n] by (simp add: str_nat.simps [of n])
  next
    case False
    with "1.IH" digit_not_underscore [of "n mod 10"] show ?thesis
      by (simp add: str_nat.simps [of n])
  qed
qed

lemma suffix_after_separator:
  assumes "xs @ u # s = ys @ u # t" and "u \<notin> set s" and "u \<notin> set t"
  shows "s = t"
proof -
  have "rev s @ u # rev xs = rev t @ u # rev ys"
    using arg_cong [OF assms(1), of rev] by simp
  then have "takeWhile (\<lambda>c. c \<noteq> u) (rev s @ u # rev xs) = takeWhile (\<lambda>c. c \<noteq> u) (rev t @ u # rev ys)"
    by simp
  moreover have "takeWhile (\<lambda>c. c \<noteq> u) (rev s @ u # rev xs) = rev s"
    using assms(2) by (auto simp: takeWhile_tail)
  moreover have "takeWhile (\<lambda>c. c \<noteq> u) (rev t @ u # rev ys) = rev t"
    using assms(3) by (auto simp: takeWhile_tail)
  ultimately show ?thesis by simp
qed

lemma rule_id_inj:
  "c1 @ ''_'' @ str_nat n = c2 @ ''_'' @ str_nat m \<Longrightarrow> n = m"
proof -
  assume "c1 @ ''_'' @ str_nat n = c2 @ ''_'' @ str_nat m"
  then have "c1 @ CHR ''_'' # str_nat n = c2 @ CHR ''_'' # str_nat m" by simp
  then have "str_nat n = str_nat m"
    using str_nat_no_underscore [of n] str_nat_no_underscore [of m]
    by (rule suffix_after_separator)
  then show ?thesis by (rule str_nat_inj)
qed

lemma add_rule_ok:
  assumes "add_rule self obj = (None, self', obj')"
  shows "\<exists>r. obj = BaseRule r \<and>
             assigned_id obj' = Some (category r @ ''_'' @ str_nat (rule_count self)) \<and>
             rule_count self' = Suc (rule_count self)"
proof (cases obj)
  case NotBaseRule
  with assms show ?thesis by (simp add: add_rule_def)
next
  case (BaseRule r)
  with assms show ?thesis
    by (cases "pattern r") (auto simp: add_rule_def Let_def assigned_id_def)
qed

lemma add_ok:
  "add self objs = (None, self', objs') \<Longrightarrow>
     rule_count self' = rule_count self + length objs \<and>
     (\<exists>cs. length cs = length objs \<and>
        map assigned_id objs' =
          map (\<lambda>(c, n). Some (c @ ''_'' @ str_nat n)) (zip cs [rule_count self ..< rule_count self + length objs]))"
proof (induction objs arbitrary: self self' objs')
  case Nil
  then show ?case by simp
next
  case (Cons obj objs)
  obtain e1 self1 obj1 where s1: "add_rule self obj = (e1, self1, obj1)"
    by (cases "add_rule self obj") auto
  obtain e2 self2 objs2 where s2: "add self1 objs = (e2, self2, objs2)"
    by (cases "add self1 objs") auto
  from Cons.prems s1 have e1: "e1 = None" by (cases e1) auto
  with Cons.prems s1 s2 have e2: "e2 = None" and eq: "self' = self2" "objs' = obj1 # objs2"
    by auto
  from add_rule_ok [OF s1 [unfolded e1]] obtain c where
    r: "assigned_id obj1 = Some (c @ ''_'' @ str_nat (rule_count self))"
    and c1: "rule_count self1 = Suc (rule_count self)" by blast
  from Cons.IH [OF s2 [unfolded e2]] obtain cs where
    c2: "rule_count self2 = rule_count self1 + length objs"
    and cs: "length cs = length objs"
    and ids: "map assigned_id objs2 =
          map (\<lambda>(c, n). Some (c @ ''_'' @ str_nat n)) (zip cs [rule_count self1 ..< rule_count self1 + length objs])"
    by blast
  have up: "[rule_count self ..< rule_count self + length (obj # objs)]
            = rule_count self # [rule_count self1 ..< rule_count self1 + length objs]"
  proof -
    have "[rule_count self ..< rule_count self + Suc (length objs)]
            = rule_count self # [Suc (rule_count self) ..< rule_count self + Suc (length objs)]"
      by (subst upt_rec) simp
    then show ?thesis using c1 by simp
  qed
  have "map assigned_id objs' =
          map (\<lambda>(c, n). Some (c @ ''_'' @ str_nat n))
            (zip (c # cs) [rule_count self ..< rule_count self + length (obj # objs)])"
    unfolding up using eq r ids by simp
  moreover have "length (c # cs) = length (obj # objs)" using cs by simp
  moreover have "rule_count self' = rule_count self + length (obj # objs)"
    using eq c1 c2 by simp
  ultimately show ?case by blast
qed

lemma ids_distinct_aux:
  "length cs = length ns \<Longrightarrow> distinct ns \<Longrightarrow>
   distinct (map (\<lambda>(c, n). Some (c @ ''_'' @ str_nat n)) (zip cs ns))"
proof (induction cs ns rule: list_induct2)
  case Nil
  then show ?case by simp
next
  case (Cons c cs n ns)
  have "Some (c @ ''_'' @ str_nat n) \<notin> set (map (\<lambda>(c, n). Some (c @ ''_'' @ str_nat n)) (zip cs ns))"
  proof
    assume "Some (c @ ''_'' @ str_nat n) \<in> set (map (\<lambda>(c, n). Some (c @ ''_'' @ str_nat n)) (zip cs ns))"
    then obtain c' n' where in_zip: "(c', n') \<in> set (zip cs ns)"
      and eq: "c @ ''_'' @ str_nat n = c' @ ''_'' @ str_nat n'" by auto
    from eq have "n = n'" by (rule rule_id_inj)
    moreover from in_zip have "n' \<in> set ns" by (rule set_zip_rightD)
    ultimately show False using Cons.prems by simp
  qed
  with Cons show ?case by simp
qed

lemma successful_adds_assign_distinct_ids:
  assumes "add self objs1 = (None, self1, objs1')" and "add self1 objs2 = (None, self2, objs2')"
  shows "distinct (map assigned_id (objs1' @ objs2')) \<and> None \<notin> set (map assigned_id (objs1' @ objs2'))"
proof -
  let ?n = "rule_count self"
  from add_ok [OF assms(1)] obtain cs1 where
    c1: "rule_count self1 = ?n + length objs1" and l1: "length cs1 = length objs1"
    and i1: "map assigned_id objs1' =
          map (\<lambda>(c, n). Some (c @ ''_'' @ str_nat n)) (zip cs1 [?n ..< ?n + length objs1])"
    by blast
  from add_ok [OF assms(2)] obtain cs2 where
    l2: "length cs2 = length objs2"
    and i2: "map assigned_id objs2' =
          map (\<lambda>(c, n). Some (c @ ''_'' @ str_nat n))
            (zip cs2 [rule_count self1 ..< rule_count self1 + length objs2])"
    by blast
  let ?ns = "[?n ..< ?n + length objs1] @ [?n + length objs1 ..< ?n + length objs1 + length objs2]"
  have all: "map assigned_id (objs1' @ objs2') =
          map (\<lambda>(c, n). Some (c @ ''_'' @ str_nat n)) (zip (cs1 @ cs2) ?ns)"
    using i1 i2 c1 l1 l2 by (simp add: zip_append)
  have "?ns = [?n ..< ?n + length objs1 + length objs2]"
    by (metis le_add1 upt_add_eq_append)
  then have d: "distinct ?ns" by simp
  have len: "length (cs1 @ cs2) = length ?ns" using l1 l2 by simp
  from ids_distinct_aux [OF len d] all show ?thesis by auto
qed

subsection \<open>The older registry after a rejected rule\<close>

text \<open>
  The older \<^verbatim>\<open>add\<close> takes its counter from the length of \<^verbatim>\<open>_rules\<close>, which the rejected
  rule has lengthened: after a call that rejects a rule, the next call assigns a fresh
  id.
\<close>

lemma tm_add_fresh_id_after_rejected_rule:
  "fst (tm_add tm_init
     [BaseRule \<lparr>category = ''PROBLEM'', literal = ''x-ray'', pattern = OtherPattern ''int'',
                on_match = None, rule_id = None\<rparr>])
     = Some (ValueError ''The pattern argument must be either a string or a list, not <class 'int'>'') \<and>
   snd (snd (tm_add tm_init
     [BaseRule \<lparr>category = ''PROBLEM'', literal = ''x-ray'', pattern = OtherPattern ''int'',
                on_match = None, rule_id = None\<rparr>]))
     = [BaseRule \<lparr>category = ''PROBLEM'', literal = ''x-ray'', pattern = OtherPattern ''int'',
                  on_match = None, rule_id = Some ''PROBLEM_0''\<rparr>] \<and>
   fst (tm_add (fst (snd (tm_add tm_init
          [BaseRule \<lparr>category = ''PROBLEM'', literal = ''x-ray'', pattern = OtherPattern ''int'',
                     on_match = None, rule_id = None\<rparr>])))
     [BaseRule \<lparr>category = ''PROBLEM'', literal = ''cough'', pattern = NoPattern,
                on_match = None, rule_id = None\<rparr>]) = None \<and>
   snd (snd (tm_add (fst (snd (tm_add tm_init
          [BaseRule \<lparr>category = ''PROBLEM'', literal = ''x-ray'', pattern = OtherPattern ''int'',
                     on_match = None, rule_id = None\<rparr>])))
     [BaseRule \<lparr>category = ''PROBLEM'', literal = ''cough'', pattern = NoPattern,
                on_match = None, rule_id = None\<rparr>]))
     = [BaseRule \<lparr>category = ''PROBLEM'', literal = ''cough'', pattern = NoPattern,
                  on_match = None, rule_id = Some ''PROBLEM_1''\<rparr>]"
  by (simp add: tm_add_def tm_init_def str_nat.simps digit_def Let_def lower_def lower_char_def
      type_repr_def)

subsection \<open>The loop of matches_to_spans\<close>




text \<open>
  With \<^verbatim>\<open>set_label=False\<close> the code hands \<^verbatim>\<open>label=None\<close> to \<^verbatim>\<open>Span\<close>, which does not accept
  it: the call returns only for the empty list of matches.
\<close>

lemma matches_to_spans_unlabelled_raises:
  "matches_to_spans d [] False = Inr [] \<and>
   matches_to_spans d ((rid, start, end) # ms) False =
     Inl (if 0 \<le> start \<and> start \<le> end \<and> end \<le> int (length (tokens d))
          then TypeError else IndexError)"
  by (simp add: matches_to_spans_def Span_def)

subsection \<open>Claims about spans and the registry\<close>




text \<open>
  C4 at a failing input: a batch of a phrase rule and a rule whose pattern is an \<^verbatim>\<open>int\<close>.
  \<^verbatim>\<open>add\<close> raises \<^verbatim>\<open>ValueError\<close>; the first rule stays registered, the rejected rule is in
  no engine and has not advanced the counter, but its category is in the label set and
  the rule itself is in the rule map, under the id \<open>TEST_1\<close>.
\<close>

theorem add_rejected_rule_leaves_trace:
  "fst (add (init ''LOWER'' True)
     [BaseRule \<lparr>category = ''PROBLEM'', literal = ''Cough'', pattern = NoPattern,
                on_match = None, rule_id = None\<rparr>,
      BaseRule \<lparr>category = ''TEST'', literal = ''x-ray'', pattern = OtherPattern ''int'',
                on_match = None, rule_id = None\<rparr>])
     = Some (ValueError
         ''The pattern argument must be either a string or a list, not <class 'int'>'') \<and>
   fst (snd (add (init ''LOWER'' True)
     [BaseRule \<lparr>category = ''PROBLEM'', literal = ''Cough'', pattern = NoPattern,
                on_match = None, rule_id = None\<rparr>,
      BaseRule \<lparr>category = ''TEST'', literal = ''x-ray'', pattern = OtherPattern ''int'',
                on_match = None, rule_id = None\<rparr>]))
     = \<lparr>rule_ids = {}, labels = {''TEST'', ''PROBLEM''},
        rule_map = [(''PROBLEM_0'',
                     \<lparr>category = ''PROBLEM'', literal = ''Cough'', pattern = NoPattern,
                      on_match = None, rule_id = Some ''PROBLEM_0''\<rparr>),
                    (''TEST_1'',
                     \<lparr>category = ''TEST'', literal = ''x-ray'', pattern = OtherPattern ''int'',
                      on_match = None, rule_id = Some ''TEST_1''\<rparr>)],
        prune = True, matcher = [], phrase_matcher = [(''PROBLEM_0'', [''cough''], None)],
        regex_matcher = [], rule_count = 1, phrase_matcher_attr = ''LOWER''\<rparr>"
  by (simp add: add_rule_def init_def str_nat.simps digit_def Let_def lower_def lower_char_def
      type_repr_def)

text \<open>
  C8 at a failing input: a call of \<^verbatim>\<open>add\<close> that rejects a rule has written the id
  \<open>PROBLEM_0\<close> into it and has not advanced the counter; the next call gives the same id
  to another rule, which replaces the rejected one in the rule map.
\<close>

theorem rule_id_reused_after_rejected_rule:
  "fst (add (init ''LOWER'' True)
     [BaseRule \<lparr>category = ''PROBLEM'', literal = ''x-ray'', pattern = OtherPattern ''int'',
                on_match = None, rule_id = None\<rparr>])
     = Some (ValueError
         ''The pattern argument must be either a string or a list, not <class 'int'>'') \<and>
   snd (snd (add (init ''LOWER'' True)
     [BaseRule \<lparr>category = ''PROBLEM'', literal = ''x-ray'', pattern = OtherPattern ''int'',
                on_match = None, rule_id = None\<rparr>]))
     = [BaseRule \<lparr>category = ''PROBLEM'', literal = ''x-ray'', pattern = OtherPattern ''int'',
                  on_match = None, rule_id = Some ''PROBLEM_0''\<rparr>] \<and>
   add (fst (snd (add (init ''LOWER'' True)
          [BaseRule \<lparr>category = ''PROBLEM'', literal = ''x-ray'', pattern = OtherPattern ''int'',
                     on_match = None, rule_id = None\<rparr>])))
     [BaseRule \<lparr>category = ''PROBLEM'', literal = ''cough'', pattern = NoPattern,
                on_match = None, rule_id = None\<rparr>]
     = (None,
        \<lparr>rule_ids = {}, labels = {''PROBLEM''},
         rule_map = [(''PROBLEM_0'',
                      \<lparr>category = ''PROBLEM'', literal = ''cough'', pattern = NoPattern,
                       on_match = None, rule_id = Some ''PROBLEM_0''\<rparr>)],
         prune = True, matcher = [], phrase_matcher = [(''PROBLEM_0'', [''cough''], None)],
         regex_matcher = [], rule_count = 1, phrase_matcher_attr = ''LOWER''\<rparr>,
        [BaseRule \<lparr>category = ''PROBLEM'', literal = ''cough'', pattern = NoPattern,
                   on_match = None, rule_id = Some ''PROBLEM_0''\<rparr>])"
  by (simp add: add_rule_def init_def str_nat.simps digit_def Let_def lower_def lower_char_def
      type_repr_def)

end
